theory Spec2Isabelle
  imports Main "HOL-Library.AList"
begin

section \<open>JavaScript values\<close>

text \<open>
  The result of \<^verbatim>\<open>parseInt\<close> on a form field: an integer, or \<^verbatim>\<open>NaN\<close> when the field does
  not start with a number.  Every comparison with \<^verbatim>\<open>NaN\<close> is false and every sum with it is \<^verbatim>\<open>NaN\<close>.
\<close>

datatype jsnum = NaN | Num int

fun js_add :: "jsnum \<Rightarrow> jsnum \<Rightarrow> jsnum" where
  "js_add (Num x) (Num y) = Num (x + y)"
| "js_add _ _ = NaN"

fun js_sub :: "jsnum \<Rightarrow> jsnum \<Rightarrow> jsnum" where
  "js_sub (Num x) (Num y) = Num (x - y)"
| "js_sub _ _ = NaN"

fun js_gt :: "jsnum \<Rightarrow> jsnum \<Rightarrow> bool" where
  "js_gt (Num x) (Num y) = (y < x)"
| "js_gt _ _ = False"

fun js_ge :: "jsnum \<Rightarrow> jsnum \<Rightarrow> bool" where
  "js_ge (Num x) (Num y) = (y \<le> x)"
| "js_ge _ _ = False"

text \<open>
  The values a displayed cell or a record field can hold: \<^verbatim>\<open>null\<close>, \<^verbatim>\<open>undefined\<close> (what an
  array read past the end gives), a string, or a number.
\<close>

datatype jsval = JNull | JUndefined | JStr string | JNum int

definition js_nth :: "int list \<Rightarrow> nat \<Rightarrow> jsval" where
  "js_nth xs i = (if i < length xs then JNum (xs ! i) else JUndefined)"

text \<open>
  \<^verbatim>\<open>Math.floor(Math.random() * n)\<close>: \<^verbatim>\<open>Math.random()\<close> lies in \<open>[0, 1)\<close>, so the index is below
  \<open>n\<close> for a positive \<open>n\<close> and is \<open>0\<close> when \<open>n = 0\<close>.  The drawn index is an input of the
  model; \<open>validIndex\<close> says which inputs the expression can produce.
\<close>

definition validIndex :: "nat \<Rightarrow> nat \<Rightarrow> bool" where
  "validIndex n k = (if n = 0 then k = 0 else k < n)"

section \<open>Data model\<close>

record step =
  s_id :: int
  s_name :: string
  s_count :: jsnum

record winRecord =
  number :: jsval
  stepId :: int
  stepName :: string
  timestamp :: nat

text \<open>
  The React state variables of \<^verbatim>\<open>App\<close>.  Fields \<open>range_min\<close>, \<open>range_max\<close> and \<open>s_count\<close>
  hold what \<^verbatim>\<open>parseInt\<close> makes of the stored field (the code parses at every use).
  A value of this type is also what a handler created in one render sees of the state:
  the closures of that render read these values, whatever the state is when they run.
\<close>

record app =
  range_min :: jsnum
  range_max :: jsnum
  steps :: "step list"
  availableNumbers :: "int list"
  history :: "winRecord list"
  currentNumber :: jsval
  isSpinning :: bool
  showConfig :: bool
  winner :: jsval
  currentStepIndex :: nat
  isTransitioning :: bool
  expandedSteps :: "(int \<times> bool) list"

type_synonym render = app

text \<open>
  Timers.  \<^verbatim>\<open>setInterval\<close> and \<^verbatim>\<open>setTimeout\<close> return a fresh positive handle and keep the callback
  pending; the callback carries the render it was created in.
\<close>

datatype callback = TickCb render | StopSpinCb render | TransitionCb render

record timer =
  handle :: nat
  delay :: nat
  repeats :: bool
  callback :: callback

record world =
  cur :: app
  intervalRef :: "nat option"
  timerRef :: "nat option"
  pending :: "timer list"
  nextHandle :: nat

definition cancel :: "nat \<Rightarrow> timer list \<Rightarrow> timer list" where
  "cancel h ts = filter (\<lambda>t. handle t \<noteq> h) ts"

text \<open>\<^verbatim>\<open>if (ref.current) clearInterval(ref.current)\<close>: \<^verbatim>\<open>null\<close> and \<open>0\<close> are falsy.\<close>

definition clearRef :: "nat option \<Rightarrow> timer list \<Rightarrow> timer list" where
  "clearRef r ts = (case r of None \<Rightarrow> ts | Some h \<Rightarrow> if h = 0 then ts else cancel h ts)"

section \<open>Round plan editing\<close>

fun digits :: "nat \<Rightarrow> string" where
  "digits n = (if n < 10 then [char_of (48 + n)] else digits (n div 10) @ [char_of (48 + n mod 10)])"

definition maxId :: "step list \<Rightarrow> int" where
  "maxId ss = (case map s_id ss of [] \<Rightarrow> 0 | x # xs \<Rightarrow> fold max xs x)"

definition addStep :: "app \<Rightarrow> app" where
  "addStep a =
     (let newId = (if length (steps a) > 0 then maxId (steps a) + 1 else 1)
      in a\<lparr>steps := steps a @
           [\<lparr>s_id = newId, s_name = ''Round '' @ digits (length (steps a) + 1), s_count = Num 1\<rparr>]\<rparr>)"

definition removeStep :: "int \<Rightarrow> app \<Rightarrow> app" where
  "removeStep i a =
     (if length (steps a) = 1 then a
      else a\<lparr>steps := filter (\<lambda>s. s_id s \<noteq> i) (steps a)\<rparr>)"

definition updateStepName :: "int \<Rightarrow> string \<Rightarrow> app \<Rightarrow> app" where
  "updateStepName i v a = a\<lparr>steps := map (\<lambda>s. if s_id s = i then s\<lparr>s_name := v\<rparr> else s) (steps a)\<rparr>"

definition updateStepCount :: "int \<Rightarrow> jsnum \<Rightarrow> app \<Rightarrow> app" where
  "updateStepCount i v a = a\<lparr>steps := map (\<lambda>s. if s_id s = i then s\<lparr>s_count := v\<rparr> else s) (steps a)\<rparr>"

definition toggleStepExpansion :: "int \<Rightarrow> app \<Rightarrow> app" where
  "toggleStepExpansion i a =
     a\<lparr>expandedSteps := AList.update i (\<not> (map_of (expandedSteps a) i = Some True)) (expandedSteps a)\<rparr>"

section \<open>Initialize\<close>

datatype error = InsufficientPool jsnum jsnum

text \<open>\<^verbatim>\<open>for (let i = min; i <= max; i++) nums.push(i)\<close>\<close>

function pushRange :: "int \<Rightarrow> int \<Rightarrow> int list \<Rightarrow> int list" where
  "pushRange i hi nums = (if i \<le> hi then pushRange (i + 1) hi (nums @ [i]) else nums)"
  by pat_completeness auto
termination
  by (relation "measure (\<lambda>(i, hi, nums). nat (hi + 1 - i))") auto

declare pushRange.simps [simp del]

fun numbersLoop :: "jsnum \<Rightarrow> jsnum \<Rightarrow> int list" where
  "numbersLoop (Num lo) (Num hi) = pushRange lo hi []"
| "numbersLoop _ _ = []"

definition totalAvailable :: "app \<Rightarrow> jsnum" where
  "totalAvailable a = js_add (js_sub (range_max a) (range_min a)) (Num 1)"

definition totalWinnersNeeded :: "app \<Rightarrow> jsnum" where
  "totalWinnersNeeded a = foldl (\<lambda>sum st. js_add sum (s_count st)) (Num 0) (steps a)"

definition initializeNumbers :: "app \<Rightarrow> error + app" where
  "initializeNumbers a =
     (if js_gt (totalWinnersNeeded a) (totalAvailable a)
      then Inl (InsufficientPool (totalWinnersNeeded a) (totalAvailable a))
      else Inr (a\<lparr>availableNumbers := numbersLoop (range_min a) (range_max a),
                  history := [],
                  winner := JNull,
                  currentNumber := JStr ''?'',
                  currentStepIndex := 0,
                  isTransitioning := False,
                  showConfig := False,
                  expandedSteps := (if length (steps a) > 0 then [(s_id (steps a ! 0), True)]
                                    else expandedSteps a)\<rparr>))"

section \<open>Spinning\<close>

text \<open>
  \<^verbatim>\<open>handleSpin\<close>: three guards, each returning early (two of them after an alert); otherwise
  the wheel starts: a 120 ms interval for the flicker and a 3000 ms timeout for \<^verbatim>\<open>stopSpin\<close>,
  both closing over the render \<open>cur w\<close> the handler belongs to.
\<close>

datatype notice = AllNumbersDrawn | AllRoundsCompleted | Silent

definition handleSpin :: "world \<Rightarrow> notice + world" where
  "handleSpin w =
     (let a = cur w in
      if length (availableNumbers a) = 0 then Inl AllNumbersDrawn
      else if currentStepIndex a \<ge> length (steps a) then Inl AllRoundsCompleted
      else if isTransitioning a then Inl Silent
      else Inr (w\<lparr>cur := a\<lparr>isSpinning := True, winner := JNull\<rparr>,
                  intervalRef := Some (nextHandle w),
                  timerRef := Some (nextHandle w + 1),
                  pending := pending w @
                    [\<lparr>handle = nextHandle w, delay = 120, repeats = True, callback = TickCb a\<rparr>,
                     \<lparr>handle = nextHandle w + 1, delay = 3000, repeats = False, callback = StopSpinCb a\<rparr>],
                  nextHandle := nextHandle w + 2\<rparr>))"

text \<open>The interval's callback: show a random element of the pool of its render.\<close>

definition tick :: "render \<Rightarrow> nat \<Rightarrow> world \<Rightarrow> world" where
  "tick r randomIndex w = w\<lparr>cur := (cur w)\<lparr>currentNumber := js_nth (availableNumbers r) randomIndex\<rparr>\<rparr>"

text \<open>
  The callback of the 2000 ms timeout set by \<^verbatim>\<open>stopSpin\<close>.  It reads \<^verbatim>\<open>currentStepIndex\<close> and
  \<^verbatim>\<open>steps\<close> of its render \<open>r\<close>; the \<^verbatim>\<open>else\<close> branch and \<^verbatim>\<open>setExpandedSteps\<close> are functional
  updates of the state at the time it runs.
\<close>

definition roundTransition :: "render \<Rightarrow> world \<Rightarrow> world" where
  "roundTransition r w =
     (let a = cur w in
      if int (currentStepIndex r) < int (length (steps r)) - 1
      then (let nextStepIndex = currentStepIndex r + 1;
                currentStepId = s_id (steps r ! currentStepIndex r);
                nextStepId = s_id (steps r ! nextStepIndex)
            in w\<lparr>cur := a\<lparr>currentStepIndex := nextStepIndex,
                           expandedSteps := AList.update nextStepId True
                                              (AList.update currentStepId False (expandedSteps a)),
                           isTransitioning := False\<rparr>\<rparr>)
      else w\<lparr>cur := a\<lparr>currentStepIndex := currentStepIndex a + 1, isTransitioning := False\<rparr>\<rparr>)"

text \<open>
  \<^verbatim>\<open>stopSpin\<close>, run by the 3000 ms timeout with the render \<open>r\<close> of the click that started the
  spin.  \<open>finalIndex\<close> is the value of \<^verbatim>\<open>Math.floor(Math.random() * availableNumbers.length)\<close>
  and \<open>now\<close> that of \<^verbatim>\<open>new Date()\<close>.  The pool, the round and the count of earlier winners
  are those of \<open>r\<close>; the history is prepended to by a functional update.  When
  \<^verbatim>\<open>steps[currentStepIndex]\<close> is undefined, reading its \<^verbatim>\<open>id\<close> throws after the two timers
  were cleared and before any setter ran.
\<close>

definition stopSpin :: "render \<Rightarrow> nat \<Rightarrow> nat \<Rightarrow> world \<Rightarrow> world" where
  "stopSpin r finalIndex now w =
     (let w1 = w\<lparr>pending := clearRef (timerRef w) (clearRef (intervalRef w) (pending w))\<rparr> in
      if currentStepIndex r \<ge> length (steps r) then w1
      else
       (let winningNumber = js_nth (availableNumbers r) finalIndex;
            currentStep = steps r ! currentStepIndex r;
            winRecord = \<lparr>number = winningNumber, stepId = s_id currentStep,
                         stepName = s_name currentStep, timestamp = now\<rparr>;
            a = (cur w1)\<lparr>winner := winningNumber,
                         currentNumber := winningNumber,
                         history := winRecord # history (cur w1),
                         availableNumbers := filter (\<lambda>n. JNum n \<noteq> winningNumber) (availableNumbers r),
                         isSpinning := False\<rparr>;
            winnersInThisStep = length (filter (\<lambda>h. stepId h = s_id currentStep) (history r)) + 1
        in if js_ge (Num (int winnersInThisStep)) (s_count currentStep)
           then w1\<lparr>cur := a\<lparr>isTransitioning := True\<rparr>,
                    pending := pending w1 @
                      [\<lparr>handle = nextHandle w1, delay = 2000, repeats = False, callback = TransitionCb r\<rparr>],
                    nextHandle := nextHandle w1 + 1\<rparr>
           else w1\<lparr>cur := a\<rparr>))"

text \<open>The cleanup of the mount effect: it clears the two handles kept in refs.\<close>

definition cleanup :: "world \<Rightarrow> world" where
  "cleanup w = w\<lparr>pending := clearRef (timerRef w) (clearRef (intervalRef w) (pending w))\<rparr>"


section \<open>Events\<close>

text \<open>
  What can happen to the mounted component: a click or an edit on the view that is shown
  (the setup form while \<open>showConfig\<close>, the wheel otherwise), or a pending timer firing.
  An event whose control is not rendered, or is disabled, changes nothing.
\<close>

datatype event =
    ClickInitialize
  | ClickReset
  | ClickSettings
  | ClickSpin
  | EditRangeMin jsnum
  | EditRangeMax jsnum
  | ClickAddRound
  | ClickRemoveRound int
  | EditRoundName int string
  | EditRoundCount int jsnum
  | ClickRoundHeader int
  | TimerFires nat nat nat

definition runInitialize :: "world \<Rightarrow> world" where
  "runInitialize w = (case initializeNumbers (cur w) of Inl e \<Rightarrow> w | Inr a \<Rightarrow> w\<lparr>cur := a\<rparr>)"

text \<open>The SPIN button's \<^verbatim>\<open>disabled\<close> attribute.\<close>

definition spinDisabled :: "app \<Rightarrow> bool" where
  "spinDisabled a =
     (isSpinning a \<or> isTransitioning a \<or> length (availableNumbers a) = 0
      \<or> currentStepIndex a \<ge> length (steps a))"

definition clickSpin :: "world \<Rightarrow> world" where
  "clickSpin w =
     (if showConfig (cur w) \<or> spinDisabled (cur w) then w
      else (case handleSpin w of Inl n \<Rightarrow> w | Inr w' \<Rightarrow> w'))"

text \<open>The Reset Game button is rendered on the wheel view while the history is not empty.\<close>

definition clickReset :: "world \<Rightarrow> world" where
  "clickReset w =
     (if showConfig (cur w) \<or> length (history (cur w)) = 0 then w else runInitialize w)"

text \<open>A round's header is rendered when it has winners or is the current round.\<close>

definition headerShown :: "app \<Rightarrow> int \<Rightarrow> bool" where
  "headerShown a i =
     (\<not> showConfig a \<and> length (history a) \<noteq> 0 \<and> i \<in> set (map s_id (steps a)) \<and>
      \<not> (length (filter (\<lambda>h. stepId h = i) (history a)) = 0 \<and>
         \<not> (currentStepIndex a < length (steps a) \<and> s_id (steps a ! currentStepIndex a) = i)))"

definition onConfig :: "(app \<Rightarrow> app) \<Rightarrow> world \<Rightarrow> world" where
  "onConfig f w = (if showConfig (cur w) then w\<lparr>cur := f (cur w)\<rparr> else w)"

text \<open>
  A timer firing: a timeout leaves the pending list before its callback runs, an interval
  stays.  The event carries the random index and the clock reading the callback obtains.
\<close>

definition fire :: "nat \<Rightarrow> nat \<Rightarrow> nat \<Rightarrow> world \<Rightarrow> world" where
  "fire h k now w =
     (case find (\<lambda>t. handle t = h) (pending w) of
        None \<Rightarrow> w
      | Some t \<Rightarrow>
         (case callback t of
            TickCb r \<Rightarrow> if validIndex (length (availableNumbers r)) k then tick r k w else w
          | StopSpinCb r \<Rightarrow>
              if validIndex (length (availableNumbers r)) k
              then stopSpin r k now (w\<lparr>pending := cancel h (pending w)\<rparr>) else w
          | TransitionCb r \<Rightarrow> roundTransition r (w\<lparr>pending := cancel h (pending w)\<rparr>)))"

fun step_event :: "event \<Rightarrow> world \<Rightarrow> world" where
  "step_event ClickInitialize w = (if showConfig (cur w) then runInitialize w else w)"
| "step_event ClickReset w = clickReset w"
| "step_event ClickSettings w = (if showConfig (cur w) then w else w\<lparr>cur := (cur w)\<lparr>showConfig := True\<rparr>\<rparr>)"
| "step_event ClickSpin w = clickSpin w"
| "step_event (EditRangeMin v) w = onConfig (\<lambda>a. a\<lparr>range_min := v\<rparr>) w"
| "step_event (EditRangeMax v) w = onConfig (\<lambda>a. a\<lparr>range_max := v\<rparr>) w"
| "step_event ClickAddRound w = onConfig addStep w"
| "step_event (ClickRemoveRound i) w = onConfig (removeStep i) w"
| "step_event (EditRoundName i v) w = onConfig (updateStepName i v) w"
| "step_event (EditRoundCount i v) w = onConfig (updateStepCount i v) w"
| "step_event (ClickRoundHeader i) w =
     (if headerShown (cur w) i then w\<lparr>cur := toggleStepExpansion i (cur w)\<rparr> else w)"
| "step_event (TimerFires h k now) w = fire h k now w"

definition run :: "event list \<Rightarrow> world \<Rightarrow> world" where
  "run evs w = foldl (\<lambda>w e. step_event e w) w evs"

text \<open>The state of the first render: the \<^verbatim>\<open>useState\<close> and \<^verbatim>\<open>useRef\<close> initial values.\<close>

definition app0 :: app where
  "app0 = \<lparr>range_min = Num 1, range_max = Num 100,
           steps = [\<lparr>s_id = 1, s_name = ''Round 1'', s_count = Num 1\<rparr>],
           availableNumbers = [], history = [], currentNumber = JNull, isSpinning = False,
           showConfig = True, winner = JNull, currentStepIndex = 0, isTransitioning = False,
           expandedSteps = []\<rparr>"

definition world0 :: world where
  "world0 = \<lparr>cur = app0, intervalRef = None, timerRef = None, pending = [], nextHandle = 1\<rparr>"

definition reachable :: "world \<Rightarrow> bool" where
  "reachable w = (\<exists>evs. w = run evs world0)"

section \<open>Notions used by the properties\<close>






text \<open>
  The renders held by pending \<^verbatim>\<open>stopSpin\<close> timeouts, and what holds of the state and of
  those renders whatever the user does: the pool and the drawn numbers are distinct and
  apart, a pending commit belongs to the one active spin, it draws from a non-empty pool
  none of whose numbers is in the history, and the wheel view is only shown for a
  configuration that passed the check of Initialize.
\<close>

fun spinRenders :: "timer list \<Rightarrow> render list" where
  "spinRenders [] = []"
| "spinRenders (t # ts) =
     (case callback t of StopSpinCb r \<Rightarrow> r # spinRenders ts | _ \<Rightarrow> spinRenders ts)"

definition drawsFresh :: "int list \<Rightarrow> winRecord list \<Rightarrow> bool" where
  "drawsFresh pool hist =
     (distinct pool \<and> distinct (map number hist) \<and>
      (\<forall>n \<in> set pool. JNum n \<notin> set (map number hist)))"

definition renderOk :: "winRecord list \<Rightarrow> render \<Rightarrow> bool" where
  "renderOk hist r =
     (availableNumbers r \<noteq> [] \<and> distinct (availableNumbers r) \<and>
      currentStepIndex r < length (steps r) \<and>
      (\<forall>n \<in> set (availableNumbers r). JNum n \<notin> set (map number hist)))"

definition sound :: "world \<Rightarrow> bool" where
  "sound w =
     (drawsFresh (availableNumbers (cur w)) (history (cur w)) \<and>
      (\<not> isSpinning (cur w) \<longrightarrow> spinRenders (pending w) = []) \<and>
      length (spinRenders (pending w)) \<le> 1 \<and>
      (\<forall>r \<in> set (spinRenders (pending w)). renderOk (history (cur w)) r) \<and>
      (\<not> showConfig (cur w) \<longrightarrow> \<not> js_gt (totalWinnersNeeded (cur w)) (totalAvailable (cur w))))"

text \<open>
  A play with range \<open>[1, 5]\<close> and one round of three: two spins committed (drawing the
  numbers at indices 0 and 2 of the pool at that time), and the same play with the
  second spin still running.
\<close>

definition twoDraws :: world where
  "twoDraws = run [EditRangeMax (Num 5), EditRoundCount 1 (Num 3), ClickInitialize,
                   ClickSpin, TimerFires 2 0 10, ClickSpin, TimerFires 4 2 20] world0"

definition secondSpin :: world where
  "secondSpin = run [EditRangeMax (Num 5), EditRoundCount 1 (Num 3), ClickInitialize,
                     ClickSpin, TimerFires 2 0 10, ClickSpin] world0"

text \<open>
  A game: the state a successful Initialize leaves when no timer is pending and no spin is
  active, followed by any events other than Settings and Reset Game (on the wheel view the
  setup form is not rendered, so its events change nothing).
\<close>

definition winsIn :: "winRecord list \<Rightarrow> int \<Rightarrow> nat" where
  "winsIn hist i = length (filter (\<lambda>h. stepId h = i) hist)"

definition gameStart :: "world \<Rightarrow> bool" where
  "gameStart w =
     (pending w = [] \<and> 0 < nextHandle w \<and> \<not> showConfig (cur w) \<and> \<not> isSpinning (cur w) \<and>
      \<not> isTransitioning (cur w) \<and> history (cur w) = [] \<and> currentStepIndex (cur w) = 0 \<and>
      distinct (map s_id (steps (cur w))))"

definition play :: "event \<Rightarrow> bool" where
  "play e = (e \<noteq> ClickSettings \<and> e \<noteq> ClickReset)"

text \<open>The three phases of a game, with the timers pending in each.\<close>

definition ready :: "world \<Rightarrow> bool" where
  "ready w = (\<not> isSpinning (cur w) \<and> \<not> isTransitioning (cur w) \<and> pending w = [])"

definition spinning :: "render \<Rightarrow> nat \<Rightarrow> world \<Rightarrow> bool" where
  "spinning r h w =
     (isSpinning (cur w) \<and> \<not> isTransitioning (cur w) \<and> 0 < h \<and>
      pending w =
        [\<lparr>handle = h, delay = 120, repeats = True, callback = TickCb r\<rparr>,
         \<lparr>handle = h + 1, delay = 3000, repeats = False, callback = StopSpinCb r\<rparr>] \<and>
      intervalRef w = Some h \<and> timerRef w = Some (h + 1) \<and>
      availableNumbers r = availableNumbers (cur w) \<and> availableNumbers r \<noteq> [] \<and>
      history r = history (cur w) \<and> currentStepIndex r = currentStepIndex (cur w) \<and>
      steps r = steps (cur w) \<and> currentStepIndex r < length (steps r))"

definition transitioning :: "render \<Rightarrow> nat \<Rightarrow> world \<Rightarrow> bool" where
  "transitioning r h w =
     (\<not> isSpinning (cur w) \<and> isTransitioning (cur w) \<and>
      pending w = [\<lparr>handle = h, delay = 2000, repeats = False, callback = TransitionCb r\<rparr>] \<and>
      currentStepIndex r = currentStepIndex (cur w) \<and> steps r = steps (cur w) \<and>
      currentStepIndex r < length (steps r))"

text \<open>
  The winners counted per round: none in a round not yet reached, at least one in a round
  passed, at most the required count in a round whose count is a positive number, fewer
  than that in the current round while it is open, and enough for the comparison of
  \<^verbatim>\<open>stopSpin\<close> while its transition is pending.
\<close>

definition capacity :: "step list \<Rightarrow> nat \<Rightarrow> winRecord list \<Rightarrow> bool \<Rightarrow> bool" where
  "capacity ss idx hist closing =
     (\<forall>j < length ss.
        (idx < j \<longrightarrow> winsIn hist (s_id (ss ! j)) = 0) \<and>
        (j < idx \<longrightarrow> 1 \<le> winsIn hist (s_id (ss ! j))) \<and>
        (\<forall>c. s_count (ss ! j) = Num c \<and> 1 \<le> c \<longrightarrow> int (winsIn hist (s_id (ss ! j))) \<le> c) \<and>
        (j = idx \<longrightarrow>
           (if closing
            then 1 \<le> winsIn hist (s_id (ss ! j)) \<and>
                 js_ge (Num (int (winsIn hist (s_id (ss ! j))))) (s_count (ss ! j))
            else (\<forall>c. s_count (ss ! j) = Num c \<and> 1 \<le> c \<longrightarrow>
                    int (winsIn hist (s_id (ss ! j))) < c))))"

definition inGame :: "world \<Rightarrow> bool" where
  "inGame w =
     (\<not> showConfig (cur w) \<and> 0 < nextHandle w \<and> distinct (map s_id (steps (cur w))) \<and>
      currentStepIndex (cur w) \<le> length (steps (cur w)) \<and>
      (ready w \<or> (\<exists>r h. spinning r h w) \<or> (\<exists>r h. transitioning r h w)) \<and>
      capacity (steps (cur w)) (currentStepIndex (cur w)) (history (cur w))
        (isTransitioning (cur w)))"

text \<open>Which pending timer an event fires, if any: a round transition, or a commit.\<close>

definition firing :: "event \<Rightarrow> world \<Rightarrow> timer option" where
  "firing e w =
     (case e of TimerFires h k now \<Rightarrow> find (\<lambda>t. handle t = h) (pending w) | _ \<Rightarrow> None)"

definition firesTransition :: "event \<Rightarrow> world \<Rightarrow> bool" where
  "firesTransition e w =
     (case firing e w of
        Some t \<Rightarrow> (case callback t of TransitionCb r \<Rightarrow> True | _ \<Rightarrow> False)
      | None \<Rightarrow> False)"

definition firesCommit :: "event \<Rightarrow> world \<Rightarrow> bool" where
  "firesCommit e w =
     (case e of
        TimerFires h k now \<Rightarrow>
          (case find (\<lambda>t. handle t = h) (pending w) of
             Some t \<Rightarrow>
               (case callback t of
                  StopSpinCb r \<Rightarrow> validIndex (length (availableNumbers r)) k
                | _ \<Rightarrow> False)
           | None \<Rightarrow> False)
      | _ \<Rightarrow> False)"

text \<open>
  The record a commit in state \<open>w\<close> prepends, and the comparison \<^verbatim>\<open>stopSpin\<close> makes, stated
  on the history after the commit.
\<close>

definition commitRecord :: "world \<Rightarrow> nat \<Rightarrow> nat \<Rightarrow> winRecord" where
  "commitRecord w k now =
     \<lparr>number = js_nth (availableNumbers (cur w)) k,
      stepId = s_id (steps (cur w) ! currentStepIndex (cur w)),
      stepName = s_name (steps (cur w) ! currentStepIndex (cur w)),
      timestamp = now\<rparr>"

definition roundFull :: "app \<Rightarrow> app \<Rightarrow> bool" where
  "roundFull a a' =
     js_ge (Num (int (winsIn (history a') (s_id (steps a ! currentStepIndex a)))))
       (s_count (steps a ! currentStepIndex a))"


definition zeroRoundStart :: world where
  "zeroRoundStart = run [EditRoundCount 1 (Num 0), ClickAddRound, ClickInitialize] world0"

definition zeroRoundSpun :: world where
  "zeroRoundSpun = run [ClickSpin, TimerFires 2 0 5] zeroRoundStart"


definition gameThree :: world where
  "gameThree = run [EditRangeMax (Num 5), EditRoundCount 1 (Num 3), ClickInitialize] world0"

text \<open>
  Reset Game pressed during the 2000 ms pause after the only round's draw, and the
  timeout firing afterwards; Reset Game pressed during the second spin of \<open>secondSpin\<close>,
  and that spin's timeout firing afterwards.
\<close>

definition roundClosing :: world where
  "roundClosing = run [ClickInitialize, ClickSpin, TimerFires 2 5 77] world0"

definition resetInTransition :: world where
  "resetInTransition = run [ClickReset] roundClosing"

definition staleAdvance :: world where
  "staleAdvance = run [TimerFires 3 0 0] resetInTransition"

definition resetInSpin :: world where
  "resetInSpin = run [ClickReset] secondSpin"

definition staleCommit :: world where
  "staleCommit = run [TimerFires 4 0 20] resetInSpin"


text \<open>Handles are positive and the rounds of the plan have distinct ids.\<close>

definition planOk :: "world \<Rightarrow> bool" where
  "planOk w = (0 < nextHandle w \<and> distinct (map s_id (steps (cur w))))"

section \<open>Properties of Initialize\<close>

lemma pushRange_upto: "pushRange i hi nums = nums @ [i..hi]"
proof (induction i hi nums rule: pushRange.induct)
  case (1 i hi nums)
  show ?case
  proof (cases "i \<le> hi")
    case True
    have "[i..hi] = i # [i + 1..hi]" using True by (rule upto_rec1)
    with True 1 show ?thesis by (subst pushRange.simps) simp
  next
    case False
    then show ?thesis by (subst pushRange.simps) simp
  qed
qed

lemma numbersLoop_upto: "numbersLoop (Num lo) (Num hi) = [lo..hi]"
  by (simp add: pushRange_upto)






section \<open>Starting a spin\<close>

text \<open>
  \<^verbatim>\<open>handleSpin\<close> itself does not look at \<open>isSpinning\<close>: that guard is the SPIN button's
  \<^verbatim>\<open>disabled\<close> attribute, and the button is the only caller.
\<close>

lemma handleSpin_guards:
  "(\<exists>w'. handleSpin w = Inr w') \<longleftrightarrow>
   availableNumbers (cur w) \<noteq> [] \<and> currentStepIndex (cur w) < length (steps (cur w)) \<and>
   \<not> isTransitioning (cur w)"
  by (auto simp: handleSpin_def Let_def)

text \<open>
  C1.  A click on SPIN changes nothing while a spin is active, while a round transition
  is in progress, when the pool is empty, or when no current round exists; the three
  guards of \<^verbatim>\<open>handleSpin\<close> return a notice instead of a state.  A click with all four
  conditions met on the wheel view sets \<open>isSpinning\<close> and schedules the 120 ms interval and
  the 3000 ms timeout, and nothing else.
\<close>

theorem spin_guarded:
  "(isSpinning (cur w) \<or> isTransitioning (cur w) \<or> availableNumbers (cur w) = [] \<or>
      length (steps (cur w)) \<le> currentStepIndex (cur w) \<longrightarrow> step_event ClickSpin w = w) \<and>
   (availableNumbers (cur w) = [] \<longrightarrow> handleSpin w = Inl AllNumbersDrawn) \<and>
   (availableNumbers (cur w) \<noteq> [] \<and> length (steps (cur w)) \<le> currentStepIndex (cur w) \<longrightarrow>
      handleSpin w = Inl AllRoundsCompleted) \<and>
   (availableNumbers (cur w) \<noteq> [] \<and> currentStepIndex (cur w) < length (steps (cur w)) \<and>
      isTransitioning (cur w) \<longrightarrow> handleSpin w = Inl Silent) \<and>
   (\<not> showConfig (cur w) \<and> \<not> isSpinning (cur w) \<and> \<not> isTransitioning (cur w) \<and>
      availableNumbers (cur w) \<noteq> [] \<and> currentStepIndex (cur w) < length (steps (cur w)) \<longrightarrow>
      step_event ClickSpin w =
        w\<lparr>cur := (cur w)\<lparr>isSpinning := True, winner := JNull\<rparr>,
          intervalRef := Some (nextHandle w),
          timerRef := Some (nextHandle w + 1),
          pending := pending w @
            [\<lparr>handle = nextHandle w, delay = 120, repeats = True, callback = TickCb (cur w)\<rparr>,
             \<lparr>handle = nextHandle w + 1, delay = 3000, repeats = False,
               callback = StopSpinCb (cur w)\<rparr>],
          nextHandle := nextHandle w + 2\<rparr>)"
  by (simp add: clickSpin_def spinDisabled_def handleSpin_def Let_def)

theorem spin_guarded_witness:
  "step_event ClickSpin (run [ClickInitialize, ClickSpin] world0) = run [ClickInitialize, ClickSpin] world0 \<and>
   isSpinning (cur (step_event ClickSpin (run [ClickInitialize] world0)))"
proof -
  have busy: "isSpinning (cur (run [ClickInitialize, ClickSpin] world0))"
    by code_simp
  have ready: "\<not> showConfig (cur (run [ClickInitialize] world0)) \<and>
      \<not> isSpinning (cur (run [ClickInitialize] world0)) \<and>
      \<not> isTransitioning (cur (run [ClickInitialize] world0)) \<and>
      availableNumbers (cur (run [ClickInitialize] world0)) \<noteq> [] \<and>
      currentStepIndex (cur (run [ClickInitialize] world0)) < length (steps (cur (run [ClickInitialize] world0)))"
    by code_simp
  from busy spin_guarded [of "run [ClickInitialize, ClickSpin] world0"]
  have 1: "step_event ClickSpin (run [ClickInitialize, ClickSpin] world0) = run [ClickInitialize, ClickSpin] world0"
    by blast
  from ready spin_guarded [of "run [ClickInitialize] world0"]
  have "step_event ClickSpin (run [ClickInitialize] world0) =
        (run [ClickInitialize] world0)\<lparr>cur := (cur (run [ClickInitialize] world0))\<lparr>isSpinning := True, winner := JNull\<rparr>,
          intervalRef := Some (nextHandle (run [ClickInitialize] world0)),
          timerRef := Some (nextHandle (run [ClickInitialize] world0) + 1),
          pending := pending (run [ClickInitialize] world0) @
            [\<lparr>handle = nextHandle (run [ClickInitialize] world0), delay = 120, repeats = True, callback = TickCb (cur (run [ClickInitialize] world0))\<rparr>,
             \<lparr>handle = nextHandle (run [ClickInitialize] world0) + 1, delay = 3000, repeats = False,
               callback = StopSpinCb (cur (run [ClickInitialize] world0))\<rparr>],
          nextHandle := nextHandle (run [ClickInitialize] world0) + 2\<rparr>"
    by blast
  then have 2: "isSpinning (cur (step_event ClickSpin (run [ClickInitialize] world0)))"
    by simp
  from 1 2 show ?thesis by blast
qed




section \<open>What holds in every reachable state\<close>

lemma spinRenders_append: "spinRenders (ts @ us) = spinRenders ts @ spinRenders us"
  by (induction ts) (auto split: callback.splits)

lemma spinRenders_filter_subset: "set (spinRenders (filter P ts)) \<subseteq> set (spinRenders ts)"
  by (induction ts) (auto split: callback.splits)

lemma spinRenders_filter_length: "length (spinRenders (filter P ts)) \<le> length (spinRenders ts)"
  by (induction ts) (auto split: callback.splits)

lemma spinRenders_cancel_found:
  "find (\<lambda>t. handle t = h) ts = Some t \<Longrightarrow> callback t = StopSpinCb r \<Longrightarrow>
   length (spinRenders (cancel h ts)) < length (spinRenders ts)"
proof (induction ts)
  case Nil
  then show ?case by simp
next
  case (Cons u us)
  show ?case
  proof (cases "handle u = h")
    case True
    with Cons.prems have "u = t" by simp
    with True Cons.prems(2) spinRenders_filter_length [of "\<lambda>t. handle t \<noteq> h" us]
    show ?thesis by (simp add: cancel_def)
  next
    case False
    with Cons show ?thesis by (simp add: cancel_def split: callback.splits)
  qed
qed

lemma spinRenders_clearRef_subset: "set (spinRenders (clearRef r ts)) \<subseteq> set (spinRenders ts)"
  by (cases r) (simp_all add: clearRef_def cancel_def spinRenders_filter_subset)

lemma spinRenders_clearRef_length: "length (spinRenders (clearRef r ts)) \<le> length (spinRenders ts)"
  by (cases r) (simp_all add: clearRef_def cancel_def spinRenders_filter_length)

lemma find_handle: "find (\<lambda>t. handle t = h) ts = Some t \<Longrightarrow> t \<in> set ts \<and> handle t = h"
  by (induction ts) (auto split: if_splits)

lemma spinRenders_member: "t \<in> set ts \<Longrightarrow> callback t = StopSpinCb r \<Longrightarrow> r \<in> set (spinRenders ts)"
  by (induction ts) (auto split: callback.splits)

lemma distinct_numbersLoop: "distinct (numbersLoop a b)"
  by (cases a; cases b) (simp_all add: pushRange_upto)

lemma totals_cong:
  "steps a = steps b \<Longrightarrow> range_min a = range_min b \<Longrightarrow> range_max a = range_max b \<Longrightarrow>
   js_gt (totalWinnersNeeded a) (totalAvailable a) = js_gt (totalWinnersNeeded b) (totalAvailable b)"
  by (simp add: totalWinnersNeeded_def totalAvailable_def)

lemma renderOk_nil: "renderOk hist r \<Longrightarrow> renderOk [] r"
  by (simp add: renderOk_def)

lemma sound_world0: "sound world0"
  by (simp add: sound_def world0_def app0_def drawsFresh_def)

lemma sound_runInitialize: "sound w \<Longrightarrow> sound (runInitialize w)"
proof (cases "initializeNumbers (cur w)")
  case (Inl e)
  assume "sound w"
  with Inl show ?thesis by (simp add: runInitialize_def)
next
  case (Inr a)
  assume s: "sound w"
  from Inr have ok: "\<not> js_gt (totalWinnersNeeded (cur w)) (totalAvailable (cur w))"
    by (auto simp: initializeNumbers_def split: if_splits)
  from Inr have f: "availableNumbers a = numbersLoop (range_min (cur w)) (range_max (cur w))"
    "history a = []" "isSpinning a = isSpinning (cur w)" "steps a = steps (cur w)"
    "range_min a = range_min (cur w)" "range_max a = range_max (cur w)"
    by (auto simp: initializeNumbers_def split: if_splits)
  from f(4-6) ok have ok': "\<not> js_gt (totalWinnersNeeded a) (totalAvailable a)"
    using totals_cong [of a "cur w"] by simp
  have w': "runInitialize w = w\<lparr>cur := a\<rparr>" using Inr by (simp add: runInitialize_def)
  from s have "\<forall>r \<in> set (spinRenders (pending w)). renderOk [] r"
    using renderOk_nil by (auto simp: sound_def)
  with s f(1-3) ok' show ?thesis
    unfolding w' by (simp add: sound_def drawsFresh_def distinct_numbersLoop)
qed

lemma sound_clickSpin: "sound w \<Longrightarrow> sound (clickSpin w)"
  by (auto simp: clickSpin_def spinDisabled_def handleSpin_def Let_def sound_def
      spinRenders_append drawsFresh_def renderOk_def totalWinnersNeeded_def totalAvailable_def)

lemma sound_onConfig:
  assumes "\<And>a. availableNumbers (f a) = availableNumbers a"
    and "\<And>a. history (f a) = history a"
    and "\<And>a. isSpinning (f a) = isSpinning a"
    and "\<And>a. showConfig (f a) = showConfig a"
    and "sound w"
  shows "sound (onConfig f w)"
  using assms by (simp add: onConfig_def sound_def)

lemma sound_tick: "sound w \<Longrightarrow> sound (tick r k w)"
  by (simp add: tick_def sound_def totalWinnersNeeded_def totalAvailable_def)

lemma sound_cancel: "sound w \<Longrightarrow> sound (w\<lparr>pending := cancel h (pending w)\<rparr>)"
proof -
  assume s: "sound w"
  have 1: "set (spinRenders (cancel h (pending w))) \<subseteq> set (spinRenders (pending w))"
    by (simp add: cancel_def spinRenders_filter_subset)
  have 2: "length (spinRenders (cancel h (pending w))) \<le> length (spinRenders (pending w))"
    by (simp add: cancel_def spinRenders_filter_length)
  from s 1 2 show ?thesis by (auto simp: sound_def)
qed

lemma sound_roundTransition: "sound w \<Longrightarrow> sound (roundTransition r w)"
  by (simp add: roundTransition_def Let_def sound_def totalWinnersNeeded_def totalAvailable_def)

lemma stopSpin_fields:
  assumes "currentStepIndex r < length (steps r)"
  shows "history (cur (stopSpin r k now w)) =
           \<lparr>number = js_nth (availableNumbers r) k,
            stepId = s_id (steps r ! currentStepIndex r),
            stepName = s_name (steps r ! currentStepIndex r),
            timestamp = now\<rparr> # history (cur w)"
    and "availableNumbers (cur (stopSpin r k now w)) =
           filter (\<lambda>n. JNum n \<noteq> js_nth (availableNumbers r) k) (availableNumbers r)"
    and "isSpinning (cur (stopSpin r k now w)) = False"
    and "showConfig (cur (stopSpin r k now w)) = showConfig (cur w)"
    and "steps (cur (stopSpin r k now w)) = steps (cur w)"
    and "range_min (cur (stopSpin r k now w)) = range_min (cur w)"
    and "range_max (cur (stopSpin r k now w)) = range_max (cur w)"
    and "currentStepIndex (cur (stopSpin r k now w)) = currentStepIndex (cur w)"
  using assms by (simp_all add: stopSpin_def Let_def)

lemma stopSpin_pending:
  "spinRenders (pending (stopSpin r k now w)) =
   spinRenders (clearRef (timerRef w) (clearRef (intervalRef w) (pending w)))"
  by (simp add: stopSpin_def Let_def spinRenders_append)

lemma sound_stopSpin:
  assumes s: "sound w"
    and found: "find (\<lambda>t. handle t = h) (pending w) = Some t"
    and cb: "callback t = StopSpinCb r"
    and k: "validIndex (length (availableNumbers r)) k"
  shows "sound (stopSpin r k now (w\<lparr>pending := cancel h (pending w)\<rparr>))"
proof -
  let ?w1 = "w\<lparr>pending := cancel h (pending w)\<rparr>"
  let ?w' = "stopSpin r k now ?w1"
  from found cb have "r \<in> set (spinRenders (pending w))"
    using find_handle spinRenders_member by blast
  with s have ok: "renderOk (history (cur w)) r" by (simp add: sound_def)
  then have idx: "currentStepIndex r < length (steps r)" and ne: "availableNumbers r \<noteq> []"
    and dist: "distinct (availableNumbers r)"
    and fresh: "\<forall>n \<in> set (availableNumbers r). JNum n \<notin> set (map number (history (cur w)))"
    by (simp_all add: renderOk_def)
  from k ne have k': "k < length (availableNumbers r)" by (simp add: validIndex_def)
  then have win: "js_nth (availableNumbers r) k = JNum (availableNumbers r ! k)"
    by (simp add: js_nth_def)
  from k' have mem: "availableNumbers r ! k \<in> set (availableNumbers r)" by simp
  from s have "length (spinRenders (pending w)) \<le> 1" by (simp add: sound_def)
  with spinRenders_cancel_found [OF found cb]
  have "length (spinRenders (cancel h (pending w))) = 0" by linarith
  then have "spinRenders (cancel h (pending w)) = []" by simp
  then have "spinRenders (clearRef (timerRef w) (clearRef (intervalRef w) (cancel h (pending w)))) = []"
    using spinRenders_clearRef_length
      [of "timerRef w" "clearRef (intervalRef w) (cancel h (pending w))"]
      spinRenders_clearRef_length [of "intervalRef w" "cancel h (pending w)"]
    by simp
  then have none: "spinRenders (pending ?w') = []"
    by (simp add: stopSpin_pending)
  from s have "distinct (map number (history (cur w)))" by (simp add: sound_def drawsFresh_def)
  then have fresh': "drawsFresh (availableNumbers (cur ?w')) (history (cur ?w'))"
    using dist fresh mem
    by (auto simp: stopSpin_fields [OF idx] win drawsFresh_def)
  from s have "\<not> showConfig (cur w) \<longrightarrow> \<not> js_gt (totalWinnersNeeded (cur w)) (totalAvailable (cur w))"
    by (simp add: sound_def)
  then have chk: "\<not> showConfig (cur ?w') \<longrightarrow> \<not> js_gt (totalWinnersNeeded (cur ?w')) (totalAvailable (cur ?w'))"
    using totals_cong [of "cur ?w'" "cur w"] by (simp add: stopSpin_fields [OF idx])
  from none fresh' chk show ?thesis by (simp add: sound_def)
qed

lemma sound_fire: "sound w \<Longrightarrow> sound (fire h k now w)"
proof -
  assume s: "sound w"
  show ?thesis
  proof (cases "find (\<lambda>t. handle t = h) (pending w)")
    case None
    with s show ?thesis by (simp add: fire_def)
  next
    case (Some t)
    show ?thesis
    proof (cases "callback t")
      case (TickCb r)
      with Some s sound_tick show ?thesis by (simp add: fire_def)
    next
      case (StopSpinCb r)
      with Some s sound_stopSpin [OF s Some StopSpinCb] show ?thesis by (simp add: fire_def)
    next
      case (TransitionCb r)
      with Some sound_roundTransition [OF sound_cancel [OF s]] show ?thesis by (simp add: fire_def)
    qed
  qed
qed

lemma sound_step: "sound w \<Longrightarrow> sound (step_event e w)"
proof (cases e)
  case ClickSettings
  assume "sound w"
  then show ?thesis unfolding ClickSettings by (simp add: sound_def)
next
  case (ClickRoundHeader i)
  assume "sound w"
  then show ?thesis unfolding ClickRoundHeader
    by (simp add: sound_def toggleStepExpansion_def totalWinnersNeeded_def totalAvailable_def)
qed (simp_all add: sound_runInitialize clickReset_def sound_clickSpin sound_fire sound_onConfig
      addStep_def removeStep_def updateStepName_def updateStepCount_def Let_def)

lemma run_snoc: "run (evs @ [e]) w = step_event e (run evs w)"
  by (simp add: run_def)

lemma sound_run: "sound w \<Longrightarrow> sound (run evs w)"
  by (induction evs rule: rev_induct) (simp_all add: run_snoc sound_step, simp add: run_def)

lemma reachable_sound: "reachable w \<Longrightarrow> sound w"
  using sound_run [OF sound_world0] by (auto simp: reachable_def)

section \<open>Draws\<close>

lemma reachable_run: "reachable (run evs world0)"
  by (auto simp: reachable_def)

text \<open>
  C3.  In every reachable state the numbers of the history records are pairwise distinct,
  no number of the pool is in the history, and no pending commit can draw a number that
  is in the history: a committed number is never committed again in the same game.
\<close>

theorem winners_pairwise_distinct:
  "reachable w \<Longrightarrow>
   distinct (map number (history (cur w))) \<and>
   (\<forall>n \<in> set (availableNumbers (cur w)). JNum n \<notin> set (map number (history (cur w)))) \<and>
   (\<forall>r \<in> set (spinRenders (pending w)).
      \<forall>n \<in> set (availableNumbers r). JNum n \<notin> set (map number (history (cur w))))"
  using reachable_sound [of w] by (simp add: sound_def drawsFresh_def renderOk_def)

theorem winners_pairwise_distinct_witness:
  "reachable twoDraws \<and> map number (history (cur twoDraws)) = [JNum 4, JNum 1] \<and>
   distinct (map number (history (cur twoDraws)))"
proof -
  have r: "reachable twoDraws" unfolding twoDraws_def by (rule reachable_run)
  have "map number (history (cur twoDraws)) = [JNum 4, JNum 1]" by code_simp
  with r winners_pairwise_distinct [OF r] show ?thesis by simp
qed




section \<open>Reset\<close>






section \<open>Games\<close>

lemma winsIn_Cons:
  "winsIn (x # hist) i = (if stepId x = i then Suc (winsIn hist i) else winsIn hist i)"
  by (simp add: winsIn_def)

lemma winsIn_Nil: "winsIn [] i = 0"
  by (simp add: winsIn_def)

lemma distinct_ids:
  "distinct (map s_id ss) \<Longrightarrow> i < length ss \<Longrightarrow> j < length ss \<Longrightarrow>
   (s_id (ss ! i) = s_id (ss ! j)) = (i = j)"
  using nth_eq_iff_index_eq [of "map s_id ss" i j] by simp

lemma capacity_start: "capacity ss 0 [] False"
  by (simp add: capacity_def winsIn_Nil)

lemma capacity_advance:
  "idx < length ss \<Longrightarrow> capacity ss idx hist True \<Longrightarrow> capacity ss (Suc idx) hist False"
  by (auto simp: capacity_def less_Suc_eq)

lemma capacity_commit:
  assumes d: "distinct (map s_id ss)" and idx: "idx < length ss"
    and c: "capacity ss idx hist False" and x: "stepId x = s_id (ss ! idx)"
  shows "capacity ss idx (x # hist)
           (js_ge (Num (int (winsIn hist (s_id (ss ! idx)) + 1))) (s_count (ss ! idx)))"
  unfolding capacity_def
proof (intro allI impI)
  fix j assume j: "j < length ss"
  from c j have cj: "(idx < j \<longrightarrow> winsIn hist (s_id (ss ! j)) = 0)"
    "(j < idx \<longrightarrow> 1 \<le> winsIn hist (s_id (ss ! j)))"
    "(\<forall>c. s_count (ss ! j) = Num c \<and> 1 \<le> c \<longrightarrow> int (winsIn hist (s_id (ss ! j))) \<le> c)"
    "j = idx \<longrightarrow> (\<forall>c. s_count (ss ! j) = Num c \<and> 1 \<le> c \<longrightarrow> int (winsIn hist (s_id (ss ! j))) < c)"
    by (simp_all add: capacity_def)
  show "(idx < j \<longrightarrow> winsIn (x # hist) (s_id (ss ! j)) = 0) \<and>
        (j < idx \<longrightarrow> 1 \<le> winsIn (x # hist) (s_id (ss ! j))) \<and>
        (\<forall>c. s_count (ss ! j) = Num c \<and> 1 \<le> c \<longrightarrow> int (winsIn (x # hist) (s_id (ss ! j))) \<le> c) \<and>
        (j = idx \<longrightarrow>
           (if js_ge (Num (int (winsIn hist (s_id (ss ! idx)) + 1))) (s_count (ss ! idx))
            then 1 \<le> winsIn (x # hist) (s_id (ss ! j)) \<and>
                 js_ge (Num (int (winsIn (x # hist) (s_id (ss ! j))))) (s_count (ss ! j))
            else (\<forall>c. s_count (ss ! j) = Num c \<and> 1 \<le> c \<longrightarrow>
                    int (winsIn (x # hist) (s_id (ss ! j))) < c)))"
  proof (cases "j = idx")
    case True
    with x have w: "winsIn (x # hist) (s_id (ss ! j)) = Suc (winsIn hist (s_id (ss ! idx)))"
      by (simp add: winsIn_Cons)
    from True cj(4) have lt: "\<forall>c. s_count (ss ! idx) = Num c \<and> 1 \<le> c \<longrightarrow> int (winsIn hist (s_id (ss ! idx))) < c"
      by simp
    show ?thesis
    proof (cases "s_count (ss ! idx)")
      case NaN
      with True w show ?thesis by simp
    next
      case (Num c)
      with True w lt show ?thesis by auto
    qed
  next
    case False
    with d idx j x have "stepId x \<noteq> s_id (ss ! j)"
      using distinct_ids [of ss idx j] by simp
    then have "winsIn (x # hist) (s_id (ss ! j)) = winsIn hist (s_id (ss ! j))"
      by (simp add: winsIn_Cons)
    with False cj show ?thesis by simp
  qed
qed

lemma fire_ready: "ready w \<Longrightarrow> fire h k now w = w"
  by (simp add: ready_def fire_def)

lemma fire_spinning_tick:
  "spinning r h w \<Longrightarrow>
   fire h k now w = (if validIndex (length (availableNumbers r)) k then tick r k w else w)"
  by (simp add: spinning_def fire_def)

lemma fire_spinning_other:
  "spinning r h w \<Longrightarrow> h' \<noteq> h \<Longrightarrow> h' \<noteq> h + 1 \<Longrightarrow> fire h' k now w = w"
  by (simp add: spinning_def fire_def)

lemma fire_spinning_stop:
  "spinning r h w \<Longrightarrow>
   fire (h + 1) k now w =
     (if validIndex (length (availableNumbers r)) k
      then stopSpin r k now
             (w\<lparr>pending := [\<lparr>handle = h, delay = 120, repeats = True, callback = TickCb r\<rparr>]\<rparr>)
      else w)"
  by (simp add: spinning_def fire_def cancel_def)

lemma fire_transitioning:
  "transitioning r h w \<Longrightarrow>
   fire h' k now w = (if h' = h then roundTransition r (w\<lparr>pending := []\<rparr>) else w)"
  by (simp add: transitioning_def fire_def cancel_def)

lemma commit_from_spinning:
  fixes now :: nat
  assumes sp: "spinning r h w" and k: "validIndex (length (availableNumbers r)) k"
  defines "w' \<equiv> fire (h + 1) k now w"
  defines "full \<equiv> js_ge (Num (int (winsIn (history (cur w))
                      (s_id (steps (cur w) ! currentStepIndex (cur w))) + 1)))
                    (s_count (steps (cur w) ! currentStepIndex (cur w)))"
  shows "history (cur w') =
           \<lparr>number = js_nth (availableNumbers r) k,
            stepId = s_id (steps (cur w) ! currentStepIndex (cur w)),
            stepName = s_name (steps (cur w) ! currentStepIndex (cur w)),
            timestamp = now\<rparr> # history (cur w)"
    and "steps (cur w') = steps (cur w)"
    and "currentStepIndex (cur w') = currentStepIndex (cur w)"
    and "showConfig (cur w') = showConfig (cur w)"
    and "isSpinning (cur w') = False"
    and "isTransitioning (cur w') = full"
    and "pending w' =
           (if full then [\<lparr>handle = nextHandle w, delay = 2000, repeats = False,
                            callback = TransitionCb r\<rparr>] else [])"
    and "nextHandle w \<le> nextHandle w'"
proof -
  from sp have idx: "currentStepIndex r < length (steps r)"
    and r: "availableNumbers r = availableNumbers (cur w)" "history r = history (cur w)"
      "currentStepIndex r = currentStepIndex (cur w)" "steps r = steps (cur w)"
    and refs: "intervalRef w = Some h" "timerRef w = Some (h + 1)" "0 < h"
      "\<not> isTransitioning (cur w)"
    by (auto simp: spinning_def)
  have w': "w' = stopSpin r k now
             (w\<lparr>pending := [\<lparr>handle = h, delay = 120, repeats = True, callback = TickCb r\<rparr>]\<rparr>)"
    unfolding w'_def fire_spinning_stop [OF sp] using k by simp
  show "history (cur w') =
           \<lparr>number = js_nth (availableNumbers r) k,
            stepId = s_id (steps (cur w) ! currentStepIndex (cur w)),
            stepName = s_name (steps (cur w) ! currentStepIndex (cur w)),
            timestamp = now\<rparr> # history (cur w)"
    and "steps (cur w') = steps (cur w)"
    and "currentStepIndex (cur w') = currentStepIndex (cur w)"
    and "showConfig (cur w') = showConfig (cur w)"
    and "isSpinning (cur w') = False"
    unfolding w' using r(3,4) by (simp_all add: stopSpin_fields [OF idx])
  show "isTransitioning (cur w') = full"
    unfolding w' full_def using idx r refs
    by (auto simp: stopSpin_def Let_def winsIn_def)
  show "pending w' =
           (if full then [\<lparr>handle = nextHandle w, delay = 2000, repeats = False,
                            callback = TransitionCb r\<rparr>] else [])"
    unfolding w' full_def using idx r refs
    by (auto simp: stopSpin_def Let_def winsIn_def clearRef_def cancel_def)
  show "nextHandle w \<le> nextHandle w'"
    unfolding w' using idx by (simp add: stopSpin_def Let_def)
qed

lemma advance_from_transitioning:
  fixes k now :: nat
  assumes tr: "transitioning r h w"
  defines "w' \<equiv> fire h k now w"
  shows "currentStepIndex (cur w') = currentStepIndex (cur w) + 1"
    and "history (cur w') = history (cur w)"
    and "steps (cur w') = steps (cur w)"
    and "showConfig (cur w') = showConfig (cur w)"
    and "isSpinning (cur w') = isSpinning (cur w)"
    and "isTransitioning (cur w') = False"
    and "pending w' = []"
    and "nextHandle w' = nextHandle w"
  using tr unfolding w'_def fire_transitioning [OF tr]
  by (auto simp: transitioning_def roundTransition_def Let_def)

lemma inGame_start: "gameStart w \<Longrightarrow> inGame w"
  by (simp add: gameStart_def inGame_def ready_def capacity_start)

lemma quiet_step:
  assumes g: "inGame w" and p: "play e" and q: "\<And>h k now. e \<noteq> TimerFires h k now"
  shows "inGame (step_event e w) \<and>
         steps (cur (step_event e w)) = steps (cur w) \<and>
         currentStepIndex (cur (step_event e w)) = currentStepIndex (cur w) \<and>
         history (cur (step_event e w)) = history (cur w) \<and>
         isTransitioning (cur (step_event e w)) = isTransitioning (cur w)"
proof (cases e)
  case ClickSpin
  show ?thesis
  proof (cases "spinDisabled (cur w)")
    case True
    with g show ?thesis unfolding ClickSpin by (simp add: clickSpin_def)
  next
    case False
    from g have nc: "\<not> showConfig (cur w)" by (simp add: inGame_def)
    from False have ok: "availableNumbers (cur w) \<noteq> []"
      "currentStepIndex (cur w) < length (steps (cur w))" "\<not> isTransitioning (cur w)"
      "\<not> isSpinning (cur w)"
      by (auto simp: spinDisabled_def)
    let ?w' = "w\<lparr>cur := (cur w)\<lparr>isSpinning := True, winner := JNull\<rparr>,
                  intervalRef := Some (nextHandle w),
                  timerRef := Some (nextHandle w + 1),
                  pending := pending w @
                    [\<lparr>handle = nextHandle w, delay = 120, repeats = True, callback = TickCb (cur w)\<rparr>,
                     \<lparr>handle = nextHandle w + 1, delay = 3000, repeats = False, callback = StopSpinCb (cur w)\<rparr>],
                  nextHandle := nextHandle w + 2\<rparr>"
    have w': "step_event ClickSpin w = ?w'"
      using nc False ok by (simp add: clickSpin_def handleSpin_def Let_def)
    from g ok have "ready w"
      by (auto simp: inGame_def spinning_def transitioning_def)
    then have "pending w = []" by (simp add: ready_def)
    with g ok have "spinning (cur w) (nextHandle w) ?w'"
      by (simp add: spinning_def inGame_def)
    then have "\<exists>r h. spinning r h ?w'" by blast
    with g have "inGame ?w'" by (simp add: inGame_def)
    then show ?thesis unfolding ClickSpin w' by simp
  qed
next
  case (ClickRoundHeader i)
  have "inGame (w\<lparr>cur := toggleStepExpansion i (cur w)\<rparr>)"
    using g by (simp add: inGame_def ready_def spinning_def transitioning_def
        toggleStepExpansion_def)
  with g show ?thesis unfolding ClickRoundHeader by (simp add: toggleStepExpansion_def)
next
  case (TimerFires h k now)
  with q [of h k now] show ?thesis by blast
qed (use g p in \<open>simp_all add: inGame_def onConfig_def play_def\<close>)

lemma timer_step:
  fixes h k now :: nat
  assumes g: "inGame w"
  defines "e \<equiv> TimerFires h k now"
  defines "w' \<equiv> step_event (TimerFires h k now) w"
  shows "inGame w' \<and>
         steps (cur w') = steps (cur w) \<and>
         currentStepIndex (cur w') =
           (if firesTransition e w then currentStepIndex (cur w) + 1 else currentStepIndex (cur w)) \<and>
         history (cur w') =
           (if firesCommit e w then commitRecord w k now # history (cur w) else history (cur w)) \<and>
         isTransitioning (cur w') =
           (if firesCommit e w then roundFull (cur w) (cur w')
            else if firesTransition e w then False else isTransitioning (cur w)) \<and>
         (firesCommit e w \<longrightarrow> isSpinning (cur w) \<and> \<not> isTransitioning (cur w)) \<and>
         (firesTransition e w \<longrightarrow> isTransitioning (cur w))"
proof -
  from g have base: "\<not> showConfig (cur w)" "0 < nextHandle w" "distinct (map s_id (steps (cur w)))"
    "currentStepIndex (cur w) \<le> length (steps (cur w))"
    and cap: "capacity (steps (cur w)) (currentStepIndex (cur w)) (history (cur w))
        (isTransitioning (cur w))"
    by (simp_all add: inGame_def)
  from g consider (R) "ready w" | (S) r h0 where "spinning r h0 w"
    | (T) r h0 where "transitioning r h0 w"
    by (auto simp: inGame_def)
  then show ?thesis
  proof cases
    case R
    then have "w' = w" "\<not> firesCommit e w" "\<not> firesTransition e w"
      by (simp_all add: w'_def e_def fire_ready firesCommit_def firesTransition_def firing_def
          ready_def)
    with g show ?thesis by simp
  next
    case S
    then have nt: "\<not> firesTransition e w"
      by (simp add: e_def firesTransition_def firing_def spinning_def)
    from S have sp: "isSpinning (cur w)" "\<not> isTransitioning (cur w)"
      and r: "availableNumbers r = availableNumbers (cur w)" "history r = history (cur w)"
        "currentStepIndex r = currentStepIndex (cur w)" "steps r = steps (cur w)"
      and idx: "currentStepIndex (cur w) < length (steps (cur w))"
      by (auto simp: spinning_def)
    show ?thesis
    proof (cases "h = h0 + 1 \<and> validIndex (length (availableNumbers r)) k")
      case True
      then have fc: "firesCommit e w"
        using S by (simp add: e_def firesCommit_def spinning_def)
      from True have w'eq: "w' = fire (h0 + 1) k now w" by (simp add: w'_def)
      note c = commit_from_spinning [OF S, of k now, folded w'eq] 
      from True have valid: "validIndex (length (availableNumbers r)) k" by simp
      note c = c [OF valid]
      have hist: "history (cur w') = commitRecord w k now # history (cur w)"
        using c(1) r(1) by (simp add: commitRecord_def)
      have wins: "winsIn (history (cur w')) (s_id (steps (cur w) ! currentStepIndex (cur w))) =
            winsIn (history (cur w)) (s_id (steps (cur w) ! currentStepIndex (cur w))) + 1"
        unfolding hist by (simp add: winsIn_Cons commitRecord_def)
      have full: "isTransitioning (cur w') = roundFull (cur w) (cur w')"
        using c(6) wins by (simp add: roundFull_def)
      have cap': "capacity (steps (cur w')) (currentStepIndex (cur w')) (history (cur w'))
                    (isTransitioning (cur w'))"
        unfolding c(2,3,6) hist
        using capacity_commit [OF base(3) idx, of "history (cur w)" "commitRecord w k now"] cap sp(2)
        by (simp add: commitRecord_def)
      have phase: "ready w' \<or> (\<exists>r h. spinning r h w') \<or> (\<exists>r h. transitioning r h w')"
      proof (cases "isTransitioning (cur w')")
        case True
        with c r idx have "transitioning r (nextHandle w) w'"
          by (simp add: transitioning_def)
        then show ?thesis by blast
      next
        case False
        with c have "ready w'" by (simp add: ready_def)
        then show ?thesis by blast
      qed
      from base c(8) have "0 < nextHandle w'" by simp
      with base c(2-4) cap' phase have "inGame w'"
        by (simp add: inGame_def)
      with fc nt hist full sp c(2,3) show ?thesis by simp
    next
      case False
      then have nc: "\<not> firesCommit e w"
        using S by (auto simp: e_def firesCommit_def spinning_def)
      have "w' = w \<or> w' = tick r k w"
        using False S fire_spinning_tick [OF S, of k now] fire_spinning_other [OF S, of h k now]
          fire_spinning_stop [OF S, of k now]
        by (cases "h = h0"; cases "h = h0 + 1") (auto simp: w'_def)
      then show ?thesis
      proof
        assume "w' = w"
        with g nc nt show ?thesis by simp
      next
        assume t: "w' = tick r k w"
        from S have "spinning r h0 (tick r k w)" by (auto simp: spinning_def tick_def)
        then have "\<exists>r' h. spinning r' h (tick r k w)" by blast
        with g have "inGame (tick r k w)" by (simp add: inGame_def tick_def)
        with t nc nt show ?thesis by (simp add: tick_def)
      qed
    qed
  next
    case T
    then have nc: "\<not> firesCommit e w"
      by (simp add: e_def firesCommit_def transitioning_def)
    from T have tr: "isTransitioning (cur w)" "\<not> isSpinning (cur w)"
      and idx: "currentStepIndex (cur w) < length (steps (cur w))"
      by (auto simp: transitioning_def)
    show ?thesis
    proof (cases "h = h0")
      case True
      then have ft: "firesTransition e w"
        using T by (simp add: e_def firesTransition_def firing_def transitioning_def)
      from True have w'eq: "w' = fire h0 k now w" by (simp add: w'_def)
      note a = advance_from_transitioning [OF T, of k now, folded w'eq]
      have "ready w'" using a tr by (simp add: ready_def)
      moreover have "capacity (steps (cur w')) (currentStepIndex (cur w')) (history (cur w'))
                    (isTransitioning (cur w'))"
        unfolding a using capacity_advance [OF idx] cap tr by simp
      ultimately have "inGame w'"
        using base a idx by (simp add: inGame_def)
      with ft nc a tr show ?thesis by simp
    next
      case False
      then have "w' = w" "\<not> firesTransition e w"
        using T fire_transitioning [OF T, of h k now]
        by (simp_all add: w'_def e_def firesTransition_def firing_def transitioning_def)
      with g nc show ?thesis by simp
    qed
  qed
qed

lemma game_step:
  assumes g: "inGame w" and p: "play e"
  shows "inGame (step_event e w) \<and>
         steps (cur (step_event e w)) = steps (cur w) \<and>
         currentStepIndex (cur (step_event e w)) =
           (if firesTransition e w then currentStepIndex (cur w) + 1 else currentStepIndex (cur w)) \<and>
         history (cur (step_event e w)) =
           (if firesCommit e w then hd (history (cur (step_event e w))) # history (cur w)
            else history (cur w)) \<and>
         (firesCommit e w \<longrightarrow>
            stepId (hd (history (cur (step_event e w)))) =
              s_id (steps (cur w) ! currentStepIndex (cur w)) \<and>
            isSpinning (cur w) \<and> \<not> isTransitioning (cur w)) \<and>
         isTransitioning (cur (step_event e w)) =
           (if firesCommit e w then roundFull (cur w) (cur (step_event e w))
            else if firesTransition e w then False else isTransitioning (cur w)) \<and>
         (firesTransition e w \<longrightarrow> isTransitioning (cur w))"
proof (cases "\<exists>h k now. e = TimerFires h k now")
  case True
  then obtain h k now where e: "e = TimerFires h k now" by blast
  from timer_step [OF g, of h k now] show ?thesis
    unfolding e by (simp add: commitRecord_def)
next
  case False
  then have q: "\<And>h k now. e \<noteq> TimerFires h k now" by blast
  from False have "\<not> firesCommit e w" "\<not> firesTransition e w"
    by (cases e; simp add: firesCommit_def firesTransition_def firing_def)+
  with quiet_step [OF g p q] show ?thesis by simp
qed

lemma inGame_run: "inGame w \<Longrightarrow> list_all play evs \<Longrightarrow> inGame (run evs w)"
proof (induction evs rule: rev_induct)
  case Nil
  then show ?case by (simp add: run_def)
next
  case (snoc e evs)
  then have "inGame (run evs w)" "play e" by simp_all
  with game_step [of "run evs w" e] show ?case by (simp add: run_snoc)
qed


lemma run_append: "run (evs @ evs') w = run evs' (run evs w)"
  by (simp add: run_def)


subsection \<open>Where games start\<close>

lemma maxId_ge: "s \<in> set ss \<Longrightarrow> s_id s \<le> maxId ss"
proof (cases ss)
  case Nil
  assume "s \<in> set ss"
  with Nil show ?thesis by simp
next
  case (Cons x xs)
  assume "s \<in> set ss"
  then have "s_id s \<in> set (s_id x # map s_id xs)" using Cons by auto
  then have "s_id s \<le> Max (set (s_id x # map s_id xs))" by (intro Max_ge) simp_all
  also have "\<dots> = fold max (map s_id xs) (s_id x)" by (rule Max.set_eq_fold)
  finally show ?thesis using Cons by (simp add: maxId_def)
qed

lemma distinct_addStep:
  "distinct (map s_id (steps a)) \<Longrightarrow> distinct (map s_id (steps (addStep a)))"
  using maxId_ge [of _ "steps a"] by (fastforce simp: addStep_def Let_def)

lemma ids_updateStep:
  "map s_id (steps (updateStepName i v a)) = map s_id (steps a)"
  "map s_id (steps (updateStepCount i n a)) = map s_id (steps a)"
  by (simp_all add: updateStepName_def updateStepCount_def comp_def if_distrib cong: if_cong)

lemma distinct_removeStep:
  "distinct (map s_id (steps a)) \<Longrightarrow> distinct (map s_id (steps (removeStep i a)))"
  by (simp add: removeStep_def distinct_map_filter)

lemma planOk_fire: "planOk w \<Longrightarrow> planOk (fire h k now w)"
  by (auto simp: planOk_def fire_def tick_def stopSpin_def roundTransition_def Let_def
      split: option.splits callback.splits)

lemma planOk_step: "planOk w \<Longrightarrow> planOk (step_event e w)"
proof (cases e)
  case ClickInitialize
  assume "planOk w"
  then show ?thesis unfolding ClickInitialize
    by (auto simp: planOk_def runInitialize_def initializeNumbers_def split: sum.splits if_splits)
next
  case ClickReset
  assume "planOk w"
  then show ?thesis unfolding ClickReset
    by (auto simp: planOk_def clickReset_def runInitialize_def initializeNumbers_def
        split: sum.splits if_splits)
next
  case ClickSpin
  assume "planOk w"
  then show ?thesis unfolding ClickSpin
    by (auto simp: planOk_def clickSpin_def handleSpin_def Let_def split: sum.splits if_splits)
next
  case (TimerFires h k now)
  assume "planOk w"
  then show ?thesis unfolding TimerFires by (simp add: planOk_fire)
qed (auto simp: planOk_def onConfig_def distinct_addStep distinct_removeStep ids_updateStep
      toggleStepExpansion_def)

lemma reachable_planOk: "reachable w \<Longrightarrow> planOk w"
proof -
  have "planOk (run evs world0)" for evs
    by (induction evs rule: rev_induct)
       (simp_all add: run_snoc planOk_step, simp add: run_def planOk_def world0_def app0_def)
  then show "reachable w \<Longrightarrow> planOk w" by (auto simp: reachable_def)
qed

text \<open>
  Every successful Initialize or Reset Game in a reachable state with no timer pending
  and no spin active starts a game.
\<close>

lemma gameStart_runInitialize:
  assumes "reachable w" and "pending w = []" and "\<not> isSpinning (cur w)"
    and "initializeNumbers (cur w) = Inr a"
  shows "gameStart (runInitialize w)"
proof -
  from assms(1) have "planOk w" by (rule reachable_planOk)
  with assms(2-4) show ?thesis
    by (auto simp: gameStart_def planOk_def runInitialize_def initializeNumbers_def
        split: if_splits)
qed

section \<open>Rounds\<close>



text \<open>
  C5 as amended.  In a game, a round whose required count is a positive number never has
  more history records than that count.
\<close>

theorem round_capacity:
  assumes "gameStart w0" and "list_all play evs"
    and "r \<in> set (steps (cur (run evs w0)))" and "s_count r = Num c" and "1 \<le> c"
  shows "int (winsIn (history (cur (run evs w0))) (s_id r)) \<le> c"
proof -
  have "inGame (run evs w0)" using assms(1,2) by (simp add: inGame_start inGame_run)
  then have cap: "capacity (steps (cur (run evs w0))) (currentStepIndex (cur (run evs w0)))
      (history (cur (run evs w0))) (isTransitioning (cur (run evs w0)))"
    by (simp add: inGame_def)
  from assms(3) obtain j where j: "j < length (steps (cur (run evs w0)))"
    "steps (cur (run evs w0)) ! j = r"
    by (auto simp: in_set_conv_nth)
  from cap j(1) have "\<forall>c. s_count (steps (cur (run evs w0)) ! j) = Num c \<and> 1 \<le> c \<longrightarrow>
      int (winsIn (history (cur (run evs w0))) (s_id (steps (cur (run evs w0)) ! j))) \<le> c"
    unfolding capacity_def by blast
  with j(2) assms(4,5) show ?thesis by simp
qed

theorem round_capacity_witness:
  "gameStart gameThree \<and>
   \<lparr>s_id = 1, s_name = ''Round 1'', s_count = Num 3\<rparr>
     \<in> set (steps (cur (run [ClickSpin, TimerFires 2 0 10, ClickSpin, TimerFires 4 2 20] gameThree))) \<and>
   int (winsIn (history (cur (run [ClickSpin, TimerFires 2 0 10, ClickSpin, TimerFires 4 2 20] gameThree))) 1) \<le> 3"
proof -
  have gs: "gameStart gameThree" by code_simp
  have p: "list_all play [ClickSpin, TimerFires 2 0 10, ClickSpin, TimerFires 4 2 20]"
    by (simp add: play_def)
  have r: "\<lparr>s_id = 1, s_name = ''Round 1'', s_count = Num 3\<rparr>
     \<in> set (steps (cur (run [ClickSpin, TimerFires 2 0 10, ClickSpin, TimerFires 4 2 20] gameThree)))"
    by code_simp
  from round_capacity [OF gs p r, of 3] gs r show ?thesis by simp
qed

theorem round_capacity_counterexample:
  "reachable zeroRoundSpun \<and>
   steps (cur zeroRoundSpun) ! 0 = \<lparr>s_id = 1, s_name = ''Round 1'', s_count = Num 0\<rparr> \<and>
   winsIn (history (cur zeroRoundSpun)) 1 = 1"
proof -
  have "zeroRoundSpun = run ([EditRoundCount 1 (Num 0), ClickAddRound, ClickInitialize] @
                             [ClickSpin, TimerFires 2 0 5]) world0"
    unfolding zeroRoundSpun_def zeroRoundStart_def by (simp only: run_append)
  then have "reachable zeroRoundSpun" unfolding reachable_def by blast
  moreover have "steps (cur zeroRoundSpun) ! 0 = \<lparr>s_id = 1, s_name = ''Round 1'', s_count = Num 0\<rparr>"
    by code_simp
  moreover have "winsIn (history (cur zeroRoundSpun)) 1 = 1" by code_simp
  ultimately show ?thesis by blast
qed




text \<open>
  C9.  Initialize and Reset Game cancel no timer, and the cleanup of the mount effect
  cancels only the interval and the spin timeout.  Reset Game pressed during the pause
  after a round's last draw leaves the 2000 ms timeout pending; when it fires the new
  game, with an empty history, is moved past its only round.  Reset Game pressed during a
  spin leaves that spin's timeout pending; when it fires it commits a winner into the new
  game and replaces the fresh pool \<open>[1..5]\<close> by the old pool without that winner.
\<close>

theorem reset_leaves_timers_pending:
  "pending (runInitialize w) = pending w \<and>
   map delay (pending roundClosing) = [2000] \<and>
   map delay (pending (cleanup roundClosing)) = [2000] \<and>
   map delay (pending resetInTransition) = [2000] \<and>
   history (cur resetInTransition) = [] \<and>
   currentStepIndex (cur resetInTransition) = 0 \<and>
   history (cur staleAdvance) = [] \<and>
   currentStepIndex (cur staleAdvance) = 1 \<and>
   length (steps (cur staleAdvance)) = 1 \<and>
   map delay (pending resetInSpin) = [120, 3000] \<and>
   history (cur resetInSpin) = [] \<and>
   availableNumbers (cur resetInSpin) = [1, 2, 3, 4, 5] \<and>
   map number (history (cur staleCommit)) = [JNum 2] \<and>
   availableNumbers (cur staleCommit) = [3, 4, 5]"
proof -
  have "pending (runInitialize w) = pending w"
    by (cases "initializeNumbers (cur w)") (simp_all add: runInitialize_def)
  moreover have "map delay (pending roundClosing) = [2000] \<and>
   map delay (pending (cleanup roundClosing)) = [2000] \<and>
   map delay (pending resetInTransition) = [2000] \<and>
   history (cur resetInTransition) = [] \<and>
   currentStepIndex (cur resetInTransition) = 0 \<and>
   history (cur staleAdvance) = [] \<and>
   currentStepIndex (cur staleAdvance) = 1 \<and>
   length (steps (cur staleAdvance)) = 1 \<and>
   map delay (pending resetInSpin) = [120, 3000] \<and>
   history (cur resetInSpin) = [] \<and>
   availableNumbers (cur resetInSpin) = [1, 2, 3, 4, 5] \<and>
   map number (history (cur staleCommit)) = [JNum 2] \<and>
   availableNumbers (cur staleCommit) = [3, 4, 5]"
    by code_simp
  ultimately show ?thesis by blast
qed

end
